theory Spec2Isabelle
  imports Main "HOL-Library.Multiset" "HOL-Library.Word"
begin

section \<open>The parallel task queue of include/parallel\_task\_queue.h\<close>

text \<open>
  The class \<open>am::parallel_task_queue<Task>\<close> holds a deque of waiting tasks, a vector of
  worker threads, an atomic running counter, an atomic has-waiting flag and an atomic
  active flag. Its member functions are embedded as functions on a record of these
  members; the task type is a type variable with HOL equality standing for
  \<open>Task::operator==\<close>.
\<close>

subsection \<open>Data model\<close>

text \<open>
  Modelled from the spec: \<open>task_thread<task_executor>\<close> (include/task\_thread.h is
  included by the header but is not part of the sources). Section 4.2 of the specification
  gives its contract: a worker reports \<open>available()\<close> only when idle; \<open>try_assign\<close>
  (the call \<open>worker(this, task)\<close> of line 234) moves an idle worker to busy, starts the
  executor asynchronously and answers true, or answers false and takes nothing; on finishing
  the worker returns to idle by itself. \<open>Busy t\<close> is a worker whose executor holds task
  \<open>t\<close> and has not yet reached line 47; \<open>Done\<close> is a worker whose executor has left
  \<open>operator()\<close> and that has not yet reported idle.
\<close>

datatype 'task worker = Idle | Busy 'task | Done

definition available :: "'task worker \<Rightarrow> bool" where
  "available w = (w = Idle)"

text \<open>
  \<open>try_assign acc w t\<close> is the call \<open>worker(this, std::move(t))\<close>. The flag \<open>acc\<close>
  is the answer the worker gives when it is idle: the source treats a refusal by an
  available worker as possible (line 234 tests the result), so the answer is a parameter.
\<close>

definition try_assign :: "bool \<Rightarrow> 'task worker \<Rightarrow> 'task \<Rightarrow> 'task worker option" where
  "try_assign acc w t = (if available w \<and> acc then Some (Busy t) else None)"

text \<open>
  The data members (lines 268 to 276). The two mutexes, the condition variable and the
  scheduler thread carry no data. \<open>running_\<close> is a \<open>std::atomic_int\<close>; it is modelled as
  an unbounded integer and lemma \<open>running_fits_int\<close> below shows that it stays within
  \<open>[-1, 2^31 - 1]\<close>, so no wrap-around is lost.
\<close>

record 'task queue =
  m_active :: bool
  m_hasWaiting :: bool
  m_running :: int
  m_waiting :: "'task list"
  m_workers :: "'task worker list"

text \<open>The constructor (lines 60 to 71): \<open>concurrency\<close> is an \<open>unsigned int\<close>.\<close>

definition parallel_task_queue :: "32 word \<Rightarrow> 'task queue" where
  "parallel_task_queue concurrency =
     \<lparr>m_active = True, m_hasWaiting = False, m_running = 0, m_waiting = [],
      m_workers = replicate (unat concurrency) Idle\<rparr>"

subsection \<open>Submission\<close>

text \<open>
  Lines 95 to 109: both single-task overloads (\<open>const task_type&\<close> and
  \<open>task_type&&\<close>) call \<open>push_back\<close> and store true into the flag.
\<close>

definition enqueue :: "'task \<Rightarrow> 'task queue \<Rightarrow> 'task queue" where
  "enqueue t q = q\<lparr>m_waiting := m_waiting q @ [t], m_hasWaiting := True\<rparr>"

text \<open>Lines 111 to 118: \<open>waiting_.insert(begin(waiting_), first, last)\<close>.\<close>

definition enqueue_range :: "'task list \<Rightarrow> 'task queue \<Rightarrow> 'task queue" where
  "enqueue_range ts q = q\<lparr>m_waiting := ts @ m_waiting q, m_hasWaiting := True\<rparr>"

text \<open>Lines 120 to 126: \<open>waiting_.insert(waiting_.end(), il)\<close>.\<close>

definition enqueue_il :: "'task list \<Rightarrow> 'task queue \<Rightarrow> 'task queue" where
  "enqueue_il il q = q\<lparr>m_waiting := m_waiting q @ il, m_hasWaiting := True\<rparr>"

text \<open>
  Lines 128 to 135: \<open>emplace_back\<close>; the argument is the task the forwarded constructor
  arguments build.
\<close>

definition enqueue_emplace :: "'task \<Rightarrow> 'task queue \<Rightarrow> 'task queue" where
  "enqueue_emplace t q = q\<lparr>m_waiting := m_waiting q @ [t], m_hasWaiting := True\<rparr>"

text \<open>
  Lines 141 to 152. \<open>std_find\<close> is \<open>std::find\<close> as an index: the position of the
  first element equal to \<open>t\<close>, or the length of the list for \<open>end()\<close>. \<open>erase\<close> is
  \<open>deque::erase\<close> of one position.
\<close>

fun std_find :: "'a \<Rightarrow> 'a list \<Rightarrow> nat" where
  "std_find t [] = 0"
| "std_find t (x # xs) = (if x = t then 0 else Suc (std_find t xs))"

definition erase :: "nat \<Rightarrow> 'a list \<Rightarrow> 'a list" where
  "erase i xs = take i xs @ drop (Suc i) xs"

definition try_remove :: "'task \<Rightarrow> 'task queue \<Rightarrow> bool \<times> 'task queue" where
  "try_remove t q =
     (let it = std_find t (m_waiting q) in
      if it \<noteq> length (m_waiting q) then
        (let q1 = q\<lparr>m_waiting := erase it (m_waiting q)\<rparr> in
         (True, if m_waiting q1 = [] then q1\<lparr>m_hasWaiting := False\<rparr> else q1))
      else (False, q))"

text \<open>Lines 156 to 161.\<close>

definition clear :: "'task queue \<Rightarrow> 'task queue" where
  "clear q = q\<lparr>m_waiting := [], m_hasWaiting := False\<rparr>"

text \<open>
  The destructor (lines 79 to 86): \<open>clear()\<close>, then the active flag is stored false; the
  join of the scheduler thread changes no member.
\<close>

definition destructor :: "'task queue \<Rightarrow> 'task queue" where
  "destructor q = (clear q)\<lparr>m_active := False\<rparr>"

subsection \<open>Queries\<close>

text \<open>
  Lines 165 to 208. \<open>concurrency()\<close> returns \<open>workers_.size()\<close> as \<open>unsigned int\<close>;
  \<open>running()\<close> returns the \<open>int\<close> counter as \<open>std::size_t\<close> (64 bits), so a negative
  counter reads as a large number; \<open>busy()\<close> compares the counter with
  \<open>int(workers_.size())\<close>, the size read as a signed 32-bit value.
\<close>

definition concurrency :: "'task queue \<Rightarrow> 32 word" where
  "concurrency q = word_of_nat (length (m_workers q))"

definition empty :: "'task queue \<Rightarrow> bool" where
  "empty q = (\<not> m_hasWaiting q)"

definition waiting :: "'task queue \<Rightarrow> nat" where
  "waiting q = length (m_waiting q)"

definition running :: "'task queue \<Rightarrow> 64 word" where
  "running q = word_of_int (m_running q)"

definition busy :: "'task queue \<Rightarrow> bool" where
  "busy q = (m_running q \<ge> sint (word_of_nat (length (m_workers q)) :: 32 word))"

definition complete :: "'task queue \<Rightarrow> bool" where
  "complete q = (empty q \<and> running q < 1)"

text \<open>
  Lines 215 to 219: \<open>while(!empty() || running()) isDone_.wait(lock)\<close>. The thread
  holds \<open>waitMtx_\<close> only, so the two atomic loads of the loop condition are taken at
  two instants, and enqueues and executor decrements can fall between them. Each element
  of the argument is one evaluation of the condition: the queue state at the load of
  \<open>hasWaiting_\<close>, and the queue state at the load of \<open>running_\<close> that follows when
  the flag was read false (when it was read true the second load does not happen and
  the second component plays no role). The first evaluation is the one at the call, and
  there is one more after every return of \<open>isDone_.wait\<close>, whether notified or
  spurious. The result is the evaluation at which the loop is left, or \<open>None\<close> when
  the thread is still blocked after the last one.
\<close>

fun wait :: "('task queue \<times> 'task queue) list \<Rightarrow> ('task queue \<times> 'task queue) option" where
  "wait [] = None"
| "wait ((a, b) # es) = (if \<not> empty a \<or> running b \<noteq> 0 then wait es else Some (a, b))"

subsection \<open>Task executor\<close>

text \<open>
  Lines 45 to 48: \<open>task_(); --queue_->running_;\<close>. The task is opaque; what matters to
  the queue is whether the call returns or leaves by an exception, in which case line 47
  is not reached. The first component says how \<open>operator()\<close> is left.
\<close>

datatype outcome = Returns | Throws

fun task_executor_call :: "outcome \<Rightarrow> 'task queue \<Rightarrow> outcome \<times> 'task queue" where
  "task_executor_call Returns q = (Returns, q\<lparr>m_running := m_running q - 1\<rparr>)"
| "task_executor_call Throws q = (Throws, q)"

subsection \<open>Scheduler\<close>

text \<open>
  Lines 225 to 247. \<open>commit\<close> is the accepted branch (lines 235 to 243), entered with
  the lock held and a non-empty deque (line 230 has just excluded the empty one, so
  \<open>pop_front\<close> is defined). \<open>assign_one\<close> is one iteration of the loop over the
  workers, for the worker at index \<open>i\<close>; \<open>acc i\<close> is that worker's answer when asked.
  \<open>Return\<close> leaves the function, \<open>Continue\<close> goes on with the next worker.
\<close>

datatype flow = Continue | Return

definition commit :: "'task queue \<Rightarrow> flow \<times> 'task queue" where
  "commit q =
     (let q1 = q\<lparr>m_running := m_running q + 1\<rparr>;
          q2 = q1\<lparr>m_waiting := tl (m_waiting q1)\<rparr>
      in if m_waiting q2 = [] then (Return, q2\<lparr>m_hasWaiting := False\<rparr>)
         else if busy q2 then (Return, q2)
         else (Continue, q2))"

definition assign_one :: "(nat \<Rightarrow> bool) \<Rightarrow> nat \<Rightarrow> 'task queue \<Rightarrow> flow \<times> 'task queue" where
  "assign_one acc i q =
     (if available (m_workers q ! i) then
        (if m_waiting q = [] then (Return, q\<lparr>m_hasWaiting := False\<rparr>)
         else (case try_assign (acc i) (m_workers q ! i) (hd (m_waiting q)) of
                 Some w \<Rightarrow> commit (q\<lparr>m_workers := (m_workers q)[i := w]\<rparr>)
               | None \<Rightarrow> (Continue, q)))
      else (Continue, q))"

fun for_workers :: "(nat \<Rightarrow> bool) \<Rightarrow> nat list \<Rightarrow> 'task queue \<Rightarrow> 'task queue" where
  "for_workers acc [] q = q"
| "for_workers acc (i # is) q =
     (case assign_one acc i q of
        (Return, q') \<Rightarrow> q'
      | (Continue, q') \<Rightarrow> for_workers acc is q')"

definition try_assign_tasks :: "(nat \<Rightarrow> bool) \<Rightarrow> 'task queue \<Rightarrow> 'task queue" where
  "try_assign_tasks acc q = for_workers acc [0..<length (m_workers q)] q"

text \<open>
  Lines 251 to 264 run in the scheduler thread while client threads call the public
  member functions and the workers run their executors. The interleavings are a
  labelled step relation on the members together with the scheduler's position:
  \<open>WhileActive\<close> before the test of line 253, \<open>IfEmpty\<close> and \<open>IfBusy\<close> before the
  two operands of line 254, \<open>Scan i\<close> at line 228 for the worker at index \<open>i\<close>,
  \<open>Holding i\<close> between the accepted call of line 234 and line 235 (the scheduler holds
  \<open>enqueueMtx_\<close>, and worker \<open>i\<close> already runs its executor), \<open>Exited\<close> after the loop.
  Every member function that takes \<open>enqueueMtx_\<close> is one step and needs the lock free.
  The executor's decrement (line 47) takes no lock, so it may fall between lines 234
  and 235. The else branch of lines 257 to 262 changes no member.
\<close>

datatype pc = WhileActive | IfEmpty | IfBusy | Scan nat | Holding nat | Exited

fun lock_free :: "pc \<Rightarrow> bool" where
  "lock_free (Holding i) = False"
| "lock_free _ = True"

datatype 'task action =
    Enqueue 'task | EnqueueRange "'task list" | EnqueueIl "'task list" | EnqueueEmplace 'task
  | TryRemove 'task | Clear | Destroy
  | Poll | ScanEnd | ScanSkip | ScanEmpty | ScanReject | Accept | Commit
  | Finish nat outcome | Release nat

fun after_commit :: "flow \<Rightarrow> nat \<Rightarrow> pc" where
  "after_commit Return i = WhileActive"
| "after_commit Continue i = Scan (Suc i)"

inductive step :: "'task action \<Rightarrow> 'task queue \<times> pc \<Rightarrow> 'task queue \<times> pc \<Rightarrow> bool" where
  s_enqueue: "lock_free p \<Longrightarrow> step (Enqueue t) (q, p) (enqueue t q, p)"
| s_enqueue_range: "lock_free p \<Longrightarrow> step (EnqueueRange ts) (q, p) (enqueue_range ts q, p)"
| s_enqueue_il: "lock_free p \<Longrightarrow> step (EnqueueIl ts) (q, p) (enqueue_il ts q, p)"
| s_enqueue_emplace: "lock_free p \<Longrightarrow> step (EnqueueEmplace t) (q, p) (enqueue_emplace t q, p)"
| s_try_remove: "lock_free p \<Longrightarrow> step (TryRemove t) (q, p) (snd (try_remove t q), p)"
| s_clear: "lock_free p \<Longrightarrow> step Clear (q, p) (clear q, p)"
| s_destroy: "lock_free p \<Longrightarrow> step Destroy (q, p) (destructor q, p)"
| s_active: "m_active q \<Longrightarrow> step Poll (q, WhileActive) (q, IfEmpty)"
| s_exit: "\<not> m_active q \<Longrightarrow> step Poll (q, WhileActive) (q, Exited)"
| s_nonempty: "\<not> empty q \<Longrightarrow> step Poll (q, IfEmpty) (q, IfBusy)"
| s_empty: "empty q \<Longrightarrow> step Poll (q, IfEmpty) (q, WhileActive)"
| s_not_busy: "\<not> busy q \<Longrightarrow> step Poll (q, IfBusy) (q, Scan 0)"
| s_busy: "busy q \<Longrightarrow> step Poll (q, IfBusy) (q, WhileActive)"
| s_scan_end: "length (m_workers q) \<le> i \<Longrightarrow> step ScanEnd (q, Scan i) (q, WhileActive)"
| s_scan_skip: "i < length (m_workers q) \<Longrightarrow> \<not> available (m_workers q ! i) \<Longrightarrow>
     step ScanSkip (q, Scan i) (q, Scan (Suc i))"
| s_scan_empty: "i < length (m_workers q) \<Longrightarrow> available (m_workers q ! i) \<Longrightarrow>
     m_waiting q = [] \<Longrightarrow>
     step ScanEmpty (q, Scan i) (q\<lparr>m_hasWaiting := False\<rparr>, WhileActive)"
| s_scan_reject: "i < length (m_workers q) \<Longrightarrow> available (m_workers q ! i) \<Longrightarrow>
     m_waiting q \<noteq> [] \<Longrightarrow>
     try_assign acc (m_workers q ! i) (hd (m_waiting q)) = None \<Longrightarrow>
     step ScanReject (q, Scan i) (q, Scan (Suc i))"
| s_accept: "i < length (m_workers q) \<Longrightarrow> available (m_workers q ! i) \<Longrightarrow>
     m_waiting q \<noteq> [] \<Longrightarrow>
     try_assign acc (m_workers q ! i) (hd (m_waiting q)) = Some w \<Longrightarrow>
     step Accept (q, Scan i) (q\<lparr>m_workers := (m_workers q)[i := w]\<rparr>, Holding i)"
| s_commit: "commit q = (fl, q') \<Longrightarrow> step Commit (q, Holding i) (q', after_commit fl i)"
| s_finish: "i < length (m_workers q) \<Longrightarrow> m_workers q ! i = Busy t \<Longrightarrow>
     task_executor_call oc q = (oc', q') \<Longrightarrow>
     step (Finish i oc) (q, p) (q'\<lparr>m_workers := (m_workers q')[i := Done]\<rparr>, p)"
| s_release: "i < length (m_workers q) \<Longrightarrow> m_workers q ! i = Done \<Longrightarrow>
     step (Release i) (q, p) (q\<lparr>m_workers := (m_workers q)[i := Idle]\<rparr>, p)"

text \<open>The states a queue constructed with \<open>concurrency = c\<close> can be in.\<close>

inductive reachable :: "32 word \<Rightarrow> 'task queue \<times> pc \<Rightarrow> bool" for c :: "32 word" where
  r_init: "reachable c (parallel_task_queue c, WhileActive)"
| r_step: "reachable c s \<Longrightarrow> step a s s' \<Longrightarrow> reachable c s'"

text \<open>
  The same states together with the labels of the steps that led to them, the latest
  first.
\<close>

inductive trace :: "32 word \<Rightarrow> 'task action list \<Rightarrow> 'task queue \<times> pc \<Rightarrow> bool"
  for c :: "32 word" where
  t_init: "trace c [] (parallel_task_queue c, WhileActive)"
| t_step: "trace c as s \<Longrightarrow> step a s s' \<Longrightarrow> trace c (a # as) s'"

text \<open>
  How each step changes the running counter, by its label: the only writes of
  \<open>running_\<close> in the source are line 235 and line 47.
\<close>

fun running_delta :: "'task action \<Rightarrow> int" where
  "running_delta Commit = 1"
| "running_delta (Finish i Returns) = - 1"
| "running_delta _ = 0"

text \<open>
  Auxiliary notions for the statements below: the tasks held by executors in flight,
  their number, and the agreement of the has-waiting flag with the deque.
\<close>

fun job :: "'task worker \<Rightarrow> 'task list" where
  "job (Busy t) = [t]"
| "job _ = []"

definition jobs :: "'task worker list \<Rightarrow> 'task list" where
  "jobs ws = concat (map job ws)"

definition flag_agrees :: "'task queue \<Rightarrow> bool" where
  "flag_agrees q = (m_hasWaiting q = (m_waiting q \<noteq> []))"

text \<open>
  The bound \<open>busy()\<close> compares against, and the invariant of the step relation: the
  pool keeps its size; the counter never exceeds the bound, and is strictly below it
  while the scheduler is inside \<open>try_assign_tasks\<close> without having returned; every
  executor in flight is counted, except the one whose increment the scheduler still owes.
\<close>

definition cap :: "'task queue \<Rightarrow> int" where
  "cap q = sint (word_of_nat (length (m_workers q)) :: 32 word)"

fun inv :: "32 word \<Rightarrow> 'task queue \<times> pc \<Rightarrow> bool" where
  "inv c (q, p) =
     (length (m_workers q) = unat c
      \<and> m_running q \<le> max 0 (cap q)
      \<and> ((\<exists>i. p = Scan i \<or> p = Holding i) \<longrightarrow> m_running q < cap q)
      \<and> int (length (jobs (m_workers q))) \<le> m_running q + (if lock_free p then 0 else 1))"


section \<open>Submission order\<close>

lemma enqueue_waiting: "m_waiting (enqueue t q) = m_waiting q @ [t]"
  by (simp add: enqueue_def)

lemma enqueue_il_waiting: "m_waiting (enqueue_il ts q) = m_waiting q @ ts"
  by (simp add: enqueue_il_def)

lemma enqueue_emplace_waiting: "m_waiting (enqueue_emplace t q) = m_waiting q @ [t]"
  by (simp add: enqueue_emplace_def)

lemma enqueue_range_waiting: "m_waiting (enqueue_range ts q) = ts @ m_waiting q"
  by (simp add: enqueue_range_def)

text \<open>
  Claim C1 says that every enqueue overload places its tasks after the tasks already
  waiting, in the given order. The single, initializer-list and emplace overloads do
  (the three lemmas above), and the iterator-range overload keeps the order of its
  batch, but it inserts at \<open>begin(waiting_)\<close>: with task 1 waiting, the range
  \<open>[2, 3]\<close> gives the deque \<open>[2, 3, 1]\<close> where the initializer list gives
  \<open>[1, 2, 3]\<close>, and the next scheduling pass hands task 2 to the worker before task 1.
\<close>

theorem enqueue_range_inserts_at_front:
  "m_waiting (enqueue_range [2, 3] (enqueue (1::nat) (parallel_task_queue 1))) = [2, 3, 1]
   \<and> m_waiting (enqueue_il [2, 3] (enqueue (1::nat) (parallel_task_queue 1))) = [1, 2, 3]
   \<and> m_workers (try_assign_tasks (\<lambda>i. True)
         (enqueue_range [2, 3] (enqueue (1::nat) (parallel_task_queue 1)))) = [Busy 2]"
  by (simp add: enqueue_range_def enqueue_il_def enqueue_def parallel_task_queue_def
      try_assign_tasks_def assign_one_def available_def try_assign_def commit_def busy_def)

section \<open>Removal\<close>

lemma std_find_le: "std_find t xs \<le> length xs"
  by (induction xs) auto

lemma std_find_end: "(std_find t xs = length xs) = (t \<notin> set xs)"
  using std_find_le [of t] by (induction xs) (auto simp: not_less_eq_eq)

lemma erase_std_find: "t \<in> set xs \<Longrightarrow> erase (std_find t xs) xs = remove1 t xs"
  by (induction xs) (auto simp: erase_def)

lemma std_find_first:
  "t \<in> set xs \<Longrightarrow> xs ! std_find t xs = t \<and> t \<notin> set (take (std_find t xs) xs)"
  by (induction xs) auto

lemma try_remove_frame:
  "m_running (snd (try_remove t q)) = m_running q"
  "m_workers (snd (try_remove t q)) = m_workers q"
  by (simp_all add: try_remove_def Let_def)

text \<open>
  Claim C5: \<open>try_remove(t)\<close> removes the first waiting task equal to \<open>t\<close> and returns
  true when there is one: the deque loses exactly the element at the first position
  holding \<open>t\<close> (no earlier position holds it), the flag is cleared when the deque
  becomes empty, and no other member changes. When no waiting task equals \<open>t\<close> it
  returns false and the queue is unchanged.
\<close>

theorem try_remove_first_match:
  "(t \<in> set (m_waiting q) \<longrightarrow>
      try_remove t q =
        (True, q\<lparr>m_waiting := remove1 t (m_waiting q),
                 m_hasWaiting := m_hasWaiting q \<and> remove1 t (m_waiting q) \<noteq> []\<rparr>)
      \<and> remove1 t (m_waiting q) =
          take (std_find t (m_waiting q)) (m_waiting q)
            @ drop (Suc (std_find t (m_waiting q))) (m_waiting q)
      \<and> m_waiting q ! std_find t (m_waiting q) = t
      \<and> t \<notin> set (take (std_find t (m_waiting q)) (m_waiting q)))
   \<and> (t \<notin> set (m_waiting q) \<longrightarrow> try_remove t q = (False, q))"
  using std_find_first [of t "m_waiting q"] erase_std_find [of t "m_waiting q"]
  by (auto simp: try_remove_def Let_def std_find_end erase_def)

theorem try_remove_first_match_witness:
  "fst (try_remove (2::nat) (enqueue_il [1, 2, 3, 2] (parallel_task_queue 1)))
   \<and> m_waiting (snd (try_remove (2::nat) (enqueue_il [1, 2, 3, 2] (parallel_task_queue 1))))
       = [1, 3, 2]
   \<and> try_remove (5::nat) (enqueue_il [1, 2, 3, 2] (parallel_task_queue 1))
       = (False, enqueue_il [1, 2, 3, 2] (parallel_task_queue 1))"
  using try_remove_first_match [of "2::nat" "enqueue_il [1, 2, 3, 2] (parallel_task_queue 1)"]
    try_remove_first_match [of "5::nat" "enqueue_il [1, 2, 3, 2] (parallel_task_queue 1)"]
  by (simp add: enqueue_il_def parallel_task_queue_def)

section \<open>Construction\<close>

text \<open>
  Claim C6, as amended: the constructor performs no validation. The pool has exactly
  \<open>concurrency\<close> workers and \<open>concurrency()\<close> returns the argument, also for 0;
  with 0 the pool is empty, \<open>busy()\<close> holds from the start and a scheduling pass
  changes nothing, so submitted tasks stay in the deque.
\<close>

theorem constructor_keeps_concurrency:
  "concurrency (parallel_task_queue c :: 'task queue) = c
   \<and> length (m_workers (parallel_task_queue c :: 'task queue)) = unat c
   \<and> busy (enqueue_il ts (parallel_task_queue 0 :: 'task queue))
   \<and> try_assign_tasks acc (enqueue_il ts (parallel_task_queue 0 :: 'task queue))
       = enqueue_il ts (parallel_task_queue 0)"
  by (simp add: concurrency_def parallel_task_queue_def try_assign_tasks_def enqueue_il_def
      busy_def)

text \<open>
  Claim C6 as stated (a concurrency of 0 is rejected or coerced, so the pool size is at
  least 1) fails: the queue constructed with 0 has no worker and reports concurrency 0.
\<close>

theorem concurrency_zero_accepted:
  "\<not> 1 \<le> concurrency (parallel_task_queue 0 :: nat queue)
   \<and> m_workers (parallel_task_queue 0 :: nat queue) = []"
  by (simp add: concurrency_def parallel_task_queue_def)

section \<open>Completion\<close>

lemma complete_iff: "complete q = (empty q \<and> running q = 0)"
  by (simp add: complete_def word_less_1)

lemma complete_iff_waiting:
  "flag_agrees q \<Longrightarrow> complete q = (waiting q = 0 \<and> running q = 0)"
  by (auto simp: complete_iff flag_agrees_def empty_def waiting_def)

text \<open>
  Claim C3 says that \<open>complete()\<close> is true exactly when \<open>waiting() == 0\<close> and
  \<open>running() == 0\<close>, in every reachable state. \<open>complete()\<close> reads the has-waiting
  flag, so the two agree wherever the flag agrees with the deque (lemma
  \<open>complete_iff_waiting\<close>). A batch enqueue of an empty range stores true into the flag
  without adding a task (line 117): on a fresh queue the state is reachable, nothing
  waits, nothing runs, and \<open>complete()\<close> is false.
\<close>

theorem complete_disagrees_after_empty_range:
  "reachable 1 (enqueue_range [] (parallel_task_queue 1 :: nat queue), WhileActive)
   \<and> waiting (enqueue_range [] (parallel_task_queue 1 :: nat queue)) = 0
   \<and> running (enqueue_range [] (parallel_task_queue 1 :: nat queue)) = 0
   \<and> \<not> complete (enqueue_range [] (parallel_task_queue 1 :: nat queue))"
proof -
  have "step (EnqueueRange []) (parallel_task_queue 1 :: nat queue, WhileActive)
          (enqueue_range [] (parallel_task_queue 1), WhileActive)"
    by (rule s_enqueue_range) simp
  with r_init [of 1]
  have "reachable 1 (enqueue_range [] (parallel_task_queue 1 :: nat queue), WhileActive)"
    by (rule r_step)
  then show ?thesis
    by (simp add: complete_def empty_def waiting_def running_def enqueue_range_def
        parallel_task_queue_def)
qed

section \<open>The has-waiting flag\<close>

lemma flag_agrees_enqueue: "flag_agrees (enqueue t q)"
  by (simp add: flag_agrees_def enqueue_def)

lemma flag_agrees_enqueue_emplace: "flag_agrees (enqueue_emplace t q)"
  by (simp add: flag_agrees_def enqueue_emplace_def)

lemma flag_agrees_enqueue_range: "ts \<noteq> [] \<Longrightarrow> flag_agrees (enqueue_range ts q)"
  by (simp add: flag_agrees_def enqueue_range_def)

lemma flag_agrees_enqueue_il: "ts \<noteq> [] \<Longrightarrow> flag_agrees (enqueue_il ts q)"
  by (simp add: flag_agrees_def enqueue_il_def)

lemma flag_agrees_try_remove: "flag_agrees q \<Longrightarrow> flag_agrees (snd (try_remove t q))"
  by (auto simp: flag_agrees_def try_remove_def Let_def)

lemma flag_agrees_clear: "flag_agrees (clear q)"
  by (simp add: flag_agrees_def clear_def)

lemma flag_agrees_commit: "flag_agrees q \<Longrightarrow> flag_agrees (snd (commit q))"
  by (auto simp: flag_agrees_def commit_def Let_def)

lemma flag_agrees_assign_one: "flag_agrees q \<Longrightarrow> flag_agrees (snd (assign_one acc i q))"
  using flag_agrees_commit [of "q\<lparr>m_workers := (m_workers q)[i := Busy (hd (m_waiting q))]\<rparr>"]
  by (auto simp: assign_one_def try_assign_def flag_agrees_def)

lemma flag_agrees_for_workers: "flag_agrees q \<Longrightarrow> flag_agrees (for_workers acc is q)"
proof (induction "is" arbitrary: q)
  case Nil
  then show ?case by simp
next
  case (Cons i "is")
  obtain fl q' where a: "assign_one acc i q = (fl, q')" by (cases "assign_one acc i q")
  with flag_agrees_assign_one [OF Cons.prems, of acc i] have "flag_agrees q'" by simp
  with a Cons.IH [of q'] show ?case by (cases fl) simp_all
qed

lemma flag_agrees_try_assign_tasks: "flag_agrees q \<Longrightarrow> flag_agrees (try_assign_tasks acc q)"
  by (simp add: try_assign_tasks_def flag_agrees_for_workers)

text \<open>
  Claim C10 says that every operation that changes the deque leaves the flag equal to
  "deque non-empty". The single and emplace overloads, \<open>try_remove\<close>, \<open>clear\<close> and
  the scheduling pass do (the lemmas above), and so do the two batch overloads for a
  non-empty batch. Both batch overloads store true unconditionally (lines 117 and 125),
  so an empty batch on an empty queue leaves the flag set with nothing waiting:
  \<open>empty()\<close> is false while \<open>waiting()\<close> is 0.
\<close>

theorem flag_set_by_empty_initializer_list:
  "flag_agrees (parallel_task_queue 1 :: nat queue)
   \<and> \<not> flag_agrees (enqueue_il [] (parallel_task_queue 1 :: nat queue))
   \<and> \<not> empty (enqueue_il [] (parallel_task_queue 1 :: nat queue))
   \<and> waiting (enqueue_il [] (parallel_task_queue 1 :: nat queue)) = 0"
  by (simp add: flag_agrees_def empty_def waiting_def enqueue_il_def parallel_task_queue_def)

section \<open>The scheduling pass\<close>

lemma jobs_Nil [simp]: "jobs [] = []"
  by (simp add: jobs_def)

lemma jobs_Cons [simp]: "jobs (w # ws) = job w @ jobs ws"
  by (simp add: jobs_def)


lemma commit_tasks:
  "m_waiting q \<noteq> [] \<Longrightarrow> commit q = (fl, q') \<Longrightarrow>
     m_workers q' = m_workers q \<and> m_waiting q' = tl (m_waiting q)"
  by (auto simp: commit_def Let_def split: if_splits)







section \<open>The running counter\<close>

lemma sint_size_le: "sint (word_of_nat n :: 32 word) \<le> int n"
proof -
  have z: "(0::int) \<le> uint (word_of_nat n :: 32 word)" by simp
  have "- (2 ^ 31) \<le> (0::int)" by simp
  from this z have "- (2 ^ 31) \<le> uint (word_of_nat n :: 32 word)" by (rule order_trans)
  then have "sint (word_of_nat n :: 32 word) \<le> uint (word_of_nat n :: 32 word)"
    by (simp add: sint_uint signed_take_bit_int_less_eq_self_iff)
  also have "\<dots> \<le> int n"
    by (simp add: unsigned_of_nat take_bit_nat_less_eq_self)
  finally show ?thesis .
qed

lemma sint_size_less: "sint (word_of_nat n :: 32 word) < 2 ^ 31"
  using sint_lt [of "word_of_nat n :: 32 word"] by simp

lemma length_jobs_update:
  "i < length ws \<Longrightarrow>
     int (length (jobs (ws[i := w]))) = int (length (jobs ws)) - int (length (job (ws ! i))) + int (length (job w))"
proof (induction ws arbitrary: i)
  case Nil
  then show ?case by simp
next
  case (Cons a ws)
  then show ?case by (cases i) auto
qed

lemma inv_init: "inv c (parallel_task_queue c, WhileActive)"
  by (simp add: parallel_task_queue_def jobs_def cap_def)

lemma inv_step: "step a s s' \<Longrightarrow> inv c s \<Longrightarrow> inv c s'"
proof (induction rule: step.induct)
  case (s_accept i q acc w)
  then show ?case
    by (auto simp: cap_def length_jobs_update available_def try_assign_def split: if_splits)
next
  case (s_commit q fl q' i)
  then show ?case
    by (auto simp: cap_def commit_def Let_def busy_def split: if_splits)
next
  case (s_finish i q t oc oc' q' p)
  then show ?case
    by (cases oc) (auto simp: cap_def length_jobs_update split: if_splits)
next
  case (s_release i q p)
  then show ?case
    by (auto simp: cap_def length_jobs_update split: if_splits)
next
  case (s_not_busy q)
  then show ?case by (auto simp: cap_def busy_def)
qed (auto simp: cap_def enqueue_def enqueue_range_def enqueue_il_def enqueue_emplace_def
      clear_def destructor_def try_remove_frame)


lemma reachable_inv: "reachable c s \<Longrightarrow> inv c s"
proof (induction rule: reachable.induct)
  case r_init
  show ?case by (rule inv_init)
next
  case (r_step s a s')
  from r_step.hyps(2) r_step.IH show ?case by (rule inv_step)
qed

lemma step_running_delta:
  "step a (q, p) (q', p') \<Longrightarrow> m_running q' = m_running q + running_delta a"
proof (induction a "(q, p)" "(q', p')" rule: step.induct)
  case (s_commit fl i)
  then show ?case by (auto simp: commit_def Let_def split: if_splits)
next
  case (s_finish i t oc oc' q'' )
  then show ?case by (cases oc) auto
qed (auto simp: enqueue_def enqueue_range_def enqueue_il_def enqueue_emplace_def
      clear_def destructor_def try_remove_frame)

lemma step_lock:
  "step a (q, p) (q', p') \<Longrightarrow>
     ((a = Accept) = (lock_free p \<and> \<not> lock_free p')) \<and> ((a = Commit) = (\<not> lock_free p \<and> lock_free p'))"
proof (induction a "(q, p)" "(q', p')" rule: step.induct)
  case (s_commit fl i)
  then show ?case by (cases fl) auto
qed auto

lemma running_le_concurrency:
  assumes "length (m_workers q) = unat (c :: 32 word)" "0 \<le> m_running q"
    "m_running q \<le> int (length (m_workers q))"
  shows "running q \<le> ucast (concurrency q)"
proof -
  have c: "concurrency q = c" using assms(1) by (simp add: concurrency_def)
  have "int (unat c) < 2 ^ 32" using unsigned_less [of c, where 'a = int] by simp
  then have b: "m_running q < 2 ^ 64" using assms by simp
  have "uint (running q) = m_running q"
    using assms(2) b by (simp add: running_def uint_word_of_int take_bit_int_eq_self)
  moreover have "uint (ucast c :: 64 word) = int (unat c)"
    by (simp add: uint_up_ucast is_up)
  ultimately show ?thesis using assms c by (simp add: word_le_def)
qed

lemma running_fits_int:
  "reachable c (q, p) \<Longrightarrow> - 1 \<le> m_running q \<and> m_running q < 2 ^ 31"
proof -
  assume r: "reachable c (q, p)"
  from reachable_inv [OF r] have
    "m_running q \<le> max 0 (cap q)"
    "int (length (jobs (m_workers q))) \<le> m_running q + (if lock_free p then 0 else 1)"
    by simp_all
  then show ?thesis
    using sint_size_less [of "length (m_workers q)"] by (auto simp: cap_def split: if_splits)
qed

text \<open>
  A run of a queue with one worker: a task is enqueued, the scheduler polls, enters
  \<open>try_assign_tasks\<close> and the worker accepts; then either the scheduler commits, or
  the executor finishes first.
\<close>

lemma reach_scan:
  "reachable 1 (\<lparr>m_active = True, m_hasWaiting = True, m_running = 0, m_waiting = [7::nat],
      m_workers = [Idle]\<rparr>, Scan 0)"
proof -
  let ?q = "\<lparr>m_active = True, m_hasWaiting = True, m_running = 0, m_waiting = [7::nat],
      m_workers = [Idle]\<rparr>"
  have e: "enqueue 7 (parallel_task_queue 1) = ?q"
    by (simp add: enqueue_def parallel_task_queue_def)
  have "step (Enqueue 7) (parallel_task_queue 1, WhileActive)
          (enqueue 7 (parallel_task_queue 1), WhileActive)"
    by (rule s_enqueue) simp
  with r_init [of 1] have "reachable 1 (enqueue (7::nat) (parallel_task_queue 1), WhileActive)"
    by (rule r_step)
  then have 1: "reachable 1 (?q, WhileActive)" by (simp only: e)
  have "step Poll (?q, WhileActive) (?q, IfEmpty)" by (rule s_active) simp
  with 1 have 2: "reachable 1 (?q, IfEmpty)" by (rule r_step)
  have "step Poll (?q, IfEmpty) (?q, IfBusy)" by (rule s_nonempty) (simp add: empty_def)
  with 2 have 3: "reachable 1 (?q, IfBusy)" by (rule r_step)
  have "step Poll (?q, IfBusy) (?q, Scan 0)" by (rule s_not_busy) (simp add: busy_def)
  with 3 show ?thesis by (rule r_step)
qed

lemma step_accept_example:
  "step Accept
     (\<lparr>m_active = True, m_hasWaiting = True, m_running = 0, m_waiting = [7::nat],
       m_workers = [Idle]\<rparr>, Scan 0)
     (\<lparr>m_active = True, m_hasWaiting = True, m_running = 0, m_waiting = [7::nat],
       m_workers = [Busy 7]\<rparr>, Holding 0)"
  using s_accept [of 0 "\<lparr>m_active = True, m_hasWaiting = True, m_running = 0,
      m_waiting = [7::nat], m_workers = [Idle]\<rparr>" True "Busy 7"]
  by (simp add: available_def try_assign_def)

lemma reach_holding:
  "reachable 1 (\<lparr>m_active = True, m_hasWaiting = True, m_running = 0, m_waiting = [7::nat],
      m_workers = [Busy 7]\<rparr>, Holding 0)"
  using reach_scan step_accept_example by (rule r_step)

lemma step_commit_example:
  "step Commit
     (\<lparr>m_active = True, m_hasWaiting = True, m_running = 0, m_waiting = [7::nat],
       m_workers = [Busy 7]\<rparr>, Holding 0)
     (\<lparr>m_active = True, m_hasWaiting = False, m_running = 1, m_waiting = [],
       m_workers = [Busy 7]\<rparr>, WhileActive)"
  using s_commit [of "\<lparr>m_active = True, m_hasWaiting = True, m_running = 0,
      m_waiting = [7::nat], m_workers = [Busy 7]\<rparr>" Return _ 0]
  by (simp add: commit_def)

lemma step_finish_example:
  "step (Finish 0 Returns)
     (\<lparr>m_active = True, m_hasWaiting = True, m_running = 0, m_waiting = [7::nat],
       m_workers = [Busy 7]\<rparr>, Holding 0)
     (\<lparr>m_active = True, m_hasWaiting = True, m_running = - 1, m_waiting = [7::nat],
       m_workers = [Done]\<rparr>, Holding 0)"
  using s_finish [of 0 "\<lparr>m_active = True, m_hasWaiting = True, m_running = 0,
      m_waiting = [7::nat], m_workers = [Busy 7]\<rparr>" 7 Returns Returns _ "Holding 0"]
  by simp

text \<open>
  Claim C4, as amended. At every reachable state the counter is at most the pool size.
  Whenever the scheduler is not between a worker's acceptance (line 234) and the
  increment that follows it (line 235), the counter is also non-negative, and
  \<open>running()\<close> is at most \<open>concurrency()\<close>. Every step changes the counter by
  \<open>running_delta\<close> of its label: plus one at the commit of an accepted assignment,
  minus one at the return of an executor whose task returned, nothing otherwise; an
  executor whose task threw leaves it as it is. The commit is exactly the step that
  closes the window an acceptance opened, so each accepted assignment is counted once.
  What a worker does after its task threw is not in the sources; the step relation lets
  it go on as after a return, which only adds reachable states.
\<close>

theorem running_bounds:
  "reachable c (q, p) \<Longrightarrow>
     m_running q \<le> int (length (m_workers q))
     \<and> (lock_free p \<longrightarrow> 0 \<le> m_running q \<and> running q \<le> ucast (concurrency q))
     \<and> (\<forall>a q' p'. step a (q, p) (q', p') \<longrightarrow>
           m_running q' = m_running q + running_delta a
           \<and> ((a = Accept) = (lock_free p \<and> \<not> lock_free p'))
           \<and> ((a = Commit) = (\<not> lock_free p \<and> lock_free p')))"
proof -
  assume r: "reachable c (q, p)"
  from reachable_inv [OF r] have i: "length (m_workers q) = unat c"
    "m_running q \<le> max 0 (cap q)"
    "int (length (jobs (m_workers q))) \<le> m_running q + (if lock_free p then 0 else 1)"
    by simp_all
  have u: "m_running q \<le> int (length (m_workers q))"
    using i(2) sint_size_le [of "length (m_workers q)"] by (simp add: cap_def)
  have l: "lock_free p \<Longrightarrow> 0 \<le> m_running q"
    using i(3) by simp
  show ?thesis
    using u l running_le_concurrency [OF i(1) _ u] step_running_delta step_lock by blast
qed

theorem running_bounds_witness:
  "reachable 1 (\<lparr>m_active = True, m_hasWaiting = True, m_running = 0, m_waiting = [7::nat],
      m_workers = [Idle]\<rparr>, Scan 0)
   \<and> lock_free (Scan 0)
   \<and> (0::int) \<le> m_running \<lparr>m_active = True, m_hasWaiting = True, m_running = 0,
        m_waiting = [7::nat], m_workers = [Idle]\<rparr>
   \<and> running \<lparr>m_active = True, m_hasWaiting = True, m_running = 0, m_waiting = [7::nat],
        m_workers = [Idle]\<rparr>
      \<le> ucast (concurrency \<lparr>m_active = True, m_hasWaiting = True, m_running = 0,
        m_waiting = [7::nat], m_workers = [Idle]\<rparr>)
   \<and> step Accept
        (\<lparr>m_active = True, m_hasWaiting = True, m_running = 0, m_waiting = [7::nat],
          m_workers = [Idle]\<rparr>, Scan 0)
        (\<lparr>m_active = True, m_hasWaiting = True, m_running = 0, m_waiting = [7::nat],
          m_workers = [Busy 7]\<rparr>, Holding 0)
   \<and> step Commit
        (\<lparr>m_active = True, m_hasWaiting = True, m_running = 0, m_waiting = [7::nat],
          m_workers = [Busy 7]\<rparr>, Holding 0)
        (\<lparr>m_active = True, m_hasWaiting = False, m_running = 1, m_waiting = [],
          m_workers = [Busy 7]\<rparr>, WhileActive)
   \<and> m_running \<lparr>m_active = True, m_hasWaiting = False, m_running = 1, m_waiting = [] :: nat list,
        m_workers = [Busy 7]\<rparr>
      = m_running \<lparr>m_active = True, m_hasWaiting = True, m_running = 0, m_waiting = [7::nat],
          m_workers = [Busy 7]\<rparr> + running_delta (Commit :: nat action)"
proof -
  note a = running_bounds [OF reach_scan]
  note b = running_bounds [OF reach_holding]
  from a have "running \<lparr>m_active = True, m_hasWaiting = True, m_running = 0,
        m_waiting = [7::nat], m_workers = [Idle]\<rparr>
      \<le> ucast (concurrency \<lparr>m_active = True, m_hasWaiting = True, m_running = 0,
        m_waiting = [7::nat], m_workers = [Idle]\<rparr>)"
    by simp
  moreover from b step_commit_example
  have "m_running \<lparr>m_active = True, m_hasWaiting = False, m_running = 1,
        m_waiting = [] :: nat list, m_workers = [Busy 7]\<rparr>
      = m_running \<lparr>m_active = True, m_hasWaiting = True, m_running = 0, m_waiting = [7::nat],
          m_workers = [Busy 7]\<rparr> + running_delta (Commit :: nat action)"
    by blast
  ultimately show ?thesis
    using reach_scan step_accept_example step_commit_example by simp
qed

text \<open>
  Claim C4 as stated fails. The executor starts when the worker accepts (line 234) and
  decrements without the lock (line 47), while the scheduler increments only afterwards
  (line 235): with one worker and one short task the counter is \<open>- 1\<close> in between,
  and \<open>running()\<close>, which converts it to \<open>std::size_t\<close>, exceeds
  \<open>concurrency()\<close>. And an executor whose task throws never reaches line 47: the
  counter keeps the value 1 the assignment gave it.
\<close>

theorem running_negative_before_increment:
  "reachable 1 (\<lparr>m_active = True, m_hasWaiting = True, m_running = - 1, m_waiting = [7::nat],
      m_workers = [Done]\<rparr>, Holding 0)
   \<and> m_running \<lparr>m_active = True, m_hasWaiting = True, m_running = - 1, m_waiting = [7::nat],
      m_workers = [Done]\<rparr> < 0
   \<and> \<not> running \<lparr>m_active = True, m_hasWaiting = True, m_running = - 1, m_waiting = [7::nat],
        m_workers = [Done]\<rparr>
      \<le> ucast (concurrency \<lparr>m_active = True, m_hasWaiting = True, m_running = - 1,
        m_waiting = [7::nat], m_workers = [Done]\<rparr>)
   \<and> task_executor_call Throws \<lparr>m_active = True, m_hasWaiting = False, m_running = 1,
        m_waiting = [], m_workers = [Busy (7::nat)]\<rparr>
      = (Throws, \<lparr>m_active = True, m_hasWaiting = False, m_running = 1,
        m_waiting = [], m_workers = [Busy 7]\<rparr>)"
proof -
  have "reachable 1 (\<lparr>m_active = True, m_hasWaiting = True, m_running = - 1,
      m_waiting = [7::nat], m_workers = [Done]\<rparr>, Holding 0)"
    using reach_holding step_finish_example by (rule r_step)
  moreover have "\<not> (- 1 :: 64 word) \<le> 1"
    by (simp add: word_le_def unsigned_minus_1_eq_mask mask_eq_exp_minus_1)
  ultimately show ?thesis by (simp add: running_def concurrency_def)
qed

section \<open>Waiting for completion\<close>

lemma trace_reachable: "trace c as s \<Longrightarrow> reachable c s"
  by (induction rule: trace.induct) (auto intro: r_init r_step)

lemma reachable_trace: "reachable c s \<Longrightarrow> \<exists>as. trace c as s"
  by (induction rule: reachable.induct) (auto intro: t_init t_step)

lemma trace_running:
  "trace 1 [Commit, Accept, Poll, Poll, Poll, Enqueue 7]
     (\<lparr>m_active = True, m_hasWaiting = False, m_running = 1, m_waiting = [] :: nat list,
       m_workers = [Busy 7]\<rparr>, WhileActive)"
proof -
  let ?q = "\<lparr>m_active = True, m_hasWaiting = True, m_running = 0, m_waiting = [7::nat],
      m_workers = [Idle]\<rparr>"
  have e: "enqueue 7 (parallel_task_queue 1) = ?q"
    by (simp add: enqueue_def parallel_task_queue_def)
  have "step (Enqueue 7) (parallel_task_queue 1, WhileActive)
          (enqueue 7 (parallel_task_queue 1), WhileActive)"
    by (rule s_enqueue) simp
  with t_init [of 1]
  have "trace 1 [Enqueue 7] (enqueue (7::nat) (parallel_task_queue 1), WhileActive)"
    by (rule t_step)
  then have 1: "trace 1 [Enqueue 7] (?q, WhileActive)" by (simp only: e)
  have "step Poll (?q, WhileActive) (?q, IfEmpty)" by (rule s_active) simp
  with 1 have 2: "trace 1 [Poll, Enqueue 7] (?q, IfEmpty)" by (rule t_step)
  have "step Poll (?q, IfEmpty) (?q, IfBusy)" by (rule s_nonempty) (simp add: empty_def)
  with 2 have 3: "trace 1 [Poll, Poll, Enqueue 7] (?q, IfBusy)" by (rule t_step)
  have "step Poll (?q, IfBusy) (?q, Scan 0)" by (rule s_not_busy) (simp add: busy_def)
  with 3 have 4: "trace 1 [Poll, Poll, Poll, Enqueue 7] (?q, Scan 0)" by (rule t_step)
  from 4 step_accept_example have 5: "trace 1 [Accept, Poll, Poll, Poll, Enqueue 7]
     (\<lparr>m_active = True, m_hasWaiting = True, m_running = 0, m_waiting = [7::nat],
       m_workers = [Busy 7]\<rparr>, Holding 0)" by (rule t_step)
  from 5 step_commit_example show ?thesis by (rule t_step)
qed

lemma step_enqueue_example:
  "step (Enqueue 8)
     (\<lparr>m_active = True, m_hasWaiting = False, m_running = 1, m_waiting = [] :: nat list,
       m_workers = [Busy 7]\<rparr>, WhileActive)
     (\<lparr>m_active = True, m_hasWaiting = True, m_running = 1, m_waiting = [8],
       m_workers = [Busy 7]\<rparr>, WhileActive)"
  using s_enqueue [of WhileActive 8 "\<lparr>m_active = True, m_hasWaiting = False, m_running = 1,
      m_waiting = [] :: nat list, m_workers = [Busy 7]\<rparr>"]
  by (simp add: enqueue_def)

lemma step_return_example:
  "step (Finish 0 Returns)
     (\<lparr>m_active = True, m_hasWaiting = True, m_running = 1, m_waiting = [8::nat],
       m_workers = [Busy 7]\<rparr>, WhileActive)
     (\<lparr>m_active = True, m_hasWaiting = True, m_running = 0, m_waiting = [8],
       m_workers = [Done]\<rparr>, WhileActive)"
  using s_finish [of 0 "\<lparr>m_active = True, m_hasWaiting = True, m_running = 1,
      m_waiting = [8::nat], m_workers = [Busy 7]\<rparr>" 7 Returns Returns _ WhileActive]
  by simp

lemma wait_None:
  "(wait es = None) = (\<forall>(a, b) \<in> set es. \<not> empty a \<or> running b \<noteq> 0)"
proof (induction es)
  case Nil
  show ?case by simp
next
  case (Cons e es)
  then show ?case by (cases e) (simp split: if_splits)
qed

lemma wait_Some:
  "wait es = Some (a, b) \<Longrightarrow> (a, b) \<in> set es \<and> empty a \<and> running b = 0"
  by (induction es) (auto split: if_splits)

lemma wait_same_state: "wait es = Some (a, a) \<Longrightarrow> complete a"
  using wait_Some [of es a a] by (simp add: complete_iff)

lemma wait_first:
  "\<forall>(x, y) \<in> set pre. \<not> empty x \<or> running y \<noteq> 0 \<Longrightarrow> empty a \<Longrightarrow> running b = 0 \<Longrightarrow>
     wait (pre @ (a, b) # post) = Some (a, b)"
  by (induction pre) auto

text \<open>
  Claim C8 says that \<open>wait()\<close> blocks until \<open>complete()\<close> holds and that, whenever
  it returns, the queue was seen empty with no running task. The loop does re-evaluate
  its condition at every wakeup, and an evaluation that finds the flag set or the counter
  non-zero goes back to waiting, so a spurious wakeup alone never ends it (lemmas
  \<open>wait_None\<close> and \<open>wait_Some\<close>); when both loads of an evaluation see one state,
  that state is complete (lemma \<open>wait_same_state\<close>). But the two loads are not taken
  under \<open>enqueueMtx_\<close>, as those of \<open>complete()\<close> are (line 206). With one worker
  running task 7 and an empty deque, the caller reads the flag false; then task 8 is
  enqueued and the executor of task 7 returns; then the caller reads the counter 0 and
  \<open>wait()\<close> returns, with task 8 waiting and no state of the run complete.
\<close>

theorem wait_returns_without_complete:
  "reachable 1
     (\<lparr>m_active = True, m_hasWaiting = False, m_running = 1, m_waiting = [] :: nat list,
       m_workers = [Busy 7]\<rparr>, WhileActive)
   \<and> step (Enqueue 8)
     (\<lparr>m_active = True, m_hasWaiting = False, m_running = 1, m_waiting = [] :: nat list,
       m_workers = [Busy 7]\<rparr>, WhileActive)
     (\<lparr>m_active = True, m_hasWaiting = True, m_running = 1, m_waiting = [8],
       m_workers = [Busy 7]\<rparr>, WhileActive)
   \<and> step (Finish 0 Returns)
     (\<lparr>m_active = True, m_hasWaiting = True, m_running = 1, m_waiting = [8::nat],
       m_workers = [Busy 7]\<rparr>, WhileActive)
     (\<lparr>m_active = True, m_hasWaiting = True, m_running = 0, m_waiting = [8],
       m_workers = [Done]\<rparr>, WhileActive)
   \<and> wait [(\<lparr>m_active = True, m_hasWaiting = False, m_running = 1, m_waiting = [] :: nat list,
              m_workers = [Busy 7]\<rparr>,
            \<lparr>m_active = True, m_hasWaiting = True, m_running = 0, m_waiting = [8],
              m_workers = [Done]\<rparr>)]
       = Some (\<lparr>m_active = True, m_hasWaiting = False, m_running = 1, m_waiting = [],
              m_workers = [Busy 7]\<rparr>,
            \<lparr>m_active = True, m_hasWaiting = True, m_running = 0, m_waiting = [8],
              m_workers = [Done]\<rparr>)
   \<and> \<not> complete \<lparr>m_active = True, m_hasWaiting = False, m_running = 1,
         m_waiting = [] :: nat list, m_workers = [Busy 7]\<rparr>
   \<and> \<not> complete \<lparr>m_active = True, m_hasWaiting = True, m_running = 1,
         m_waiting = [8::nat], m_workers = [Busy 7]\<rparr>
   \<and> \<not> complete \<lparr>m_active = True, m_hasWaiting = True, m_running = 0,
         m_waiting = [8::nat], m_workers = [Done]\<rparr>
   \<and> waiting \<lparr>m_active = True, m_hasWaiting = True, m_running = 0,
         m_waiting = [8::nat], m_workers = [Done]\<rparr> = 1"
  using trace_reachable [OF trace_running] step_enqueue_example step_return_example
  by (simp add: complete_iff empty_def running_def waiting_def)

section \<open>Clearing\<close>

lemma step_counts:
  "step a s s' \<Longrightarrow> \<forall>i. a \<noteq> Finish i Throws \<Longrightarrow>
     int (length (jobs (m_workers (fst s)))) = m_running (fst s) + (if lock_free (snd s) then 0 else 1) \<Longrightarrow>
     int (length (jobs (m_workers (fst s')))) = m_running (fst s') + (if lock_free (snd s') then 0 else 1)"
proof (induction rule: step.induct)
  case (s_accept i q acc w)
  then show ?case
    by (auto simp: length_jobs_update available_def try_assign_def split: if_splits)
next
  case (s_commit q fl q' i)
  then show ?case
    by (cases fl) (auto simp: commit_def Let_def split: if_splits)
next
  case (s_finish i q t oc oc' q' p)
  then show ?case
    by (cases oc) (auto simp: length_jobs_update split: if_splits)
next
  case (s_release i q p)
  then show ?case
    by (auto simp: length_jobs_update split: if_splits)
qed (auto simp: enqueue_def enqueue_range_def enqueue_il_def enqueue_emplace_def
      clear_def destructor_def try_remove_frame)

lemma trace_counts:
  "trace c as s \<Longrightarrow> \<forall>i. Finish i Throws \<notin> set as \<Longrightarrow>
     int (length (jobs (m_workers (fst s)))) = m_running (fst s) + (if lock_free (snd s) then 0 else 1)"
proof (induction rule: trace.induct)
  case t_init
  show ?case by (simp add: parallel_task_queue_def jobs_def)
next
  case (t_step as s a s')
  from t_step.prems have n: "\<forall>i. a \<noteq> Finish i Throws" "\<forall>i. Finish i Throws \<notin> set as"
    by auto
  from step_counts [OF t_step.hyps(2) n(1) t_step.IH [OF n(2)]] show ?case .
qed

lemma idle_means_zero:
  assumes "trace c as (q, p)" "lock_free p" "\<forall>i. Finish i Throws \<notin> set as"
    "jobs (m_workers q) = []"
  shows "running q = 0"
  using trace_counts [OF assms(1) assms(3)] assms(2) assms(4) by (simp add: running_def)

text \<open>
  Claim C9, as amended. \<open>clear()\<close> empties the deque and clears the flag and changes
  no other member: the running counter, the workers with the tasks they execute, and the
  active flag stay as they were. When \<open>running()\<close> is 0, a \<open>wait()\<close> that follows
  at once, with no step of another thread before its two loads, returns at its first
  evaluation. In every state in which \<open>clear()\<close> can run, no task in flight means
  \<open>running() == 0\<close>, and so that return, provided no executor's task has ended by
  throwing.
\<close>

theorem clear_frame:
  "clear q = q\<lparr>m_waiting := [], m_hasWaiting := False\<rparr>
   \<and> m_waiting (clear q) = [] \<and> \<not> m_hasWaiting (clear q)
   \<and> m_running (clear q) = m_running q \<and> m_workers (clear q) = m_workers q
   \<and> m_active (clear q) = m_active q
   \<and> (running q = 0 \<longrightarrow> wait ((clear q, clear q) # es) = Some (clear q, clear q))
   \<and> (trace c as (q, p) \<and> lock_free p \<and> (\<forall>i. Finish i Throws \<notin> set as)
        \<and> jobs (m_workers q) = [] \<longrightarrow>
          step Clear (q, p) (clear q, p)
          \<and> wait ((clear q, clear q) # es) = Some (clear q, clear q))"
proof -
  have f: "running q = 0 \<Longrightarrow> wait ((clear q, clear q) # es) = Some (clear q, clear q)"
    by (simp add: clear_def empty_def running_def)
  have "trace c as (q, p) \<and> lock_free p \<and> (\<forall>i. Finish i Throws \<notin> set as)
        \<and> jobs (m_workers q) = [] \<longrightarrow>
          step Clear (q, p) (clear q, p)
          \<and> wait ((clear q, clear q) # es) = Some (clear q, clear q)"
    using idle_means_zero [of c as q p] f s_clear [of p q] by blast
  with f show ?thesis by (simp add: clear_def)
qed

lemma step_enqueue_il_example:
  "step (EnqueueIl [8, 9])
     (\<lparr>m_active = True, m_hasWaiting = False, m_running = 1, m_waiting = [] :: nat list,
       m_workers = [Busy 7]\<rparr>, WhileActive)
     (\<lparr>m_active = True, m_hasWaiting = True, m_running = 1, m_waiting = [8, 9],
       m_workers = [Busy 7]\<rparr>, WhileActive)"
  using s_enqueue_il [of WhileActive "[8, 9]" "\<lparr>m_active = True, m_hasWaiting = False,
      m_running = 1, m_waiting = [] :: nat list, m_workers = [Busy 7]\<rparr>"]
  by (simp add: enqueue_il_def)

lemma step_finish_either_example:
  "step (Finish 0 oc)
     (\<lparr>m_active = True, m_hasWaiting = True, m_running = 1, m_waiting = [8, 9 :: nat],
       m_workers = [Busy 7]\<rparr>, WhileActive)
     (\<lparr>m_active = True, m_hasWaiting = True,
       m_running = (case oc of Returns \<Rightarrow> 0 | Throws \<Rightarrow> 1), m_waiting = [8, 9],
       m_workers = [Done]\<rparr>, WhileActive)"
  using s_finish [of 0 "\<lparr>m_active = True, m_hasWaiting = True, m_running = 1,
      m_waiting = [8, 9 :: nat], m_workers = [Busy 7]\<rparr>" 7 oc oc _ WhileActive]
  by (cases oc) simp_all

lemma step_release_example:
  "step (Release 0)
     (\<lparr>m_active = True, m_hasWaiting = True, m_running = r, m_waiting = [8, 9 :: nat],
       m_workers = [Done]\<rparr>, WhileActive)
     (\<lparr>m_active = True, m_hasWaiting = True, m_running = r, m_waiting = [8, 9],
       m_workers = [Idle]\<rparr>, WhileActive)"
  using s_release [of 0 "\<lparr>m_active = True, m_hasWaiting = True, m_running = r,
      m_waiting = [8, 9 :: nat], m_workers = [Done]\<rparr>" WhileActive]
  by simp

lemma trace_idle:
  "trace 1 [Release 0, Finish 0 oc, EnqueueIl [8, 9], Commit, Accept, Poll, Poll, Poll, Enqueue 7]
     (\<lparr>m_active = True, m_hasWaiting = True,
       m_running = (case oc of Returns \<Rightarrow> 0 | Throws \<Rightarrow> 1), m_waiting = [8, 9 :: nat],
       m_workers = [Idle]\<rparr>, WhileActive)"
proof -
  from trace_running step_enqueue_il_example
  have "trace 1 [EnqueueIl [8, 9], Commit, Accept, Poll, Poll, Poll, Enqueue 7]
     (\<lparr>m_active = True, m_hasWaiting = True, m_running = 1, m_waiting = [8, 9 :: nat],
       m_workers = [Busy 7]\<rparr>, WhileActive)" by (rule t_step)
  from this step_finish_either_example [of oc]
  have "trace 1 [Finish 0 oc, EnqueueIl [8, 9], Commit, Accept, Poll, Poll, Poll, Enqueue 7]
     (\<lparr>m_active = True, m_hasWaiting = True,
       m_running = (case oc of Returns \<Rightarrow> 0 | Throws \<Rightarrow> 1), m_waiting = [8, 9 :: nat],
       m_workers = [Done]\<rparr>, WhileActive)" by (rule t_step)
  from this step_release_example show ?thesis by (rule t_step)
qed

theorem clear_frame_witness:
  "trace 1 [Release 0, Finish 0 Returns, EnqueueIl [8, 9], Commit, Accept, Poll, Poll, Poll,
       Enqueue 7]
     (\<lparr>m_active = True, m_hasWaiting = True, m_running = 0, m_waiting = [8, 9 :: nat],
       m_workers = [Idle]\<rparr>, WhileActive)
   \<and> lock_free WhileActive
   \<and> jobs (m_workers \<lparr>m_active = True, m_hasWaiting = True, m_running = 0,
        m_waiting = [8, 9 :: nat], m_workers = [Idle]\<rparr>) = []
   \<and> running \<lparr>m_active = True, m_hasWaiting = True, m_running = 0,
        m_waiting = [8, 9 :: nat], m_workers = [Idle]\<rparr> = 0
   \<and> clear \<lparr>m_active = True, m_hasWaiting = True, m_running = 0,
        m_waiting = [8, 9 :: nat], m_workers = [Idle]\<rparr>
      = \<lparr>m_active = True, m_hasWaiting = False, m_running = 0, m_waiting = [],
        m_workers = [Idle]\<rparr>
   \<and> wait [(\<lparr>m_active = True, m_hasWaiting = False, m_running = 0, m_waiting = [] :: nat list,
              m_workers = [Idle]\<rparr>,
            \<lparr>m_active = True, m_hasWaiting = False, m_running = 0, m_waiting = [],
              m_workers = [Idle]\<rparr>)]
      = Some (\<lparr>m_active = True, m_hasWaiting = False, m_running = 0, m_waiting = [],
              m_workers = [Idle]\<rparr>,
            \<lparr>m_active = True, m_hasWaiting = False, m_running = 0, m_waiting = [],
              m_workers = [Idle]\<rparr>)"
proof -
  have t: "trace 1 [Release 0, Finish 0 Returns, EnqueueIl [8, 9], Commit, Accept, Poll, Poll,
       Poll, Enqueue 7]
     (\<lparr>m_active = True, m_hasWaiting = True, m_running = 0, m_waiting = [8, 9 :: nat],
       m_workers = [Idle]\<rparr>, WhileActive)"
    using trace_idle [of Returns] by simp
  have c: "clear \<lparr>m_active = True, m_hasWaiting = True, m_running = 0,
        m_waiting = [8, 9 :: nat], m_workers = [Idle]\<rparr>
      = \<lparr>m_active = True, m_hasWaiting = False, m_running = 0, m_waiting = [],
        m_workers = [Idle]\<rparr>"
    by (simp add: clear_def)
  have n: "\<forall>i. Finish i Throws \<notin> set [Release 0, Finish 0 Returns, EnqueueIl [8, 9 :: nat],
       Commit, Accept, Poll, Poll, Poll, Enqueue 7]"
    by simp
  have j: "jobs (m_workers \<lparr>m_active = True, m_hasWaiting = True, m_running = 0,
        m_waiting = [8, 9 :: nat], m_workers = [Idle]\<rparr>) = []"
    by simp
  have l: "lock_free WhileActive" by simp
  from clear_frame [of "\<lparr>m_active = True, m_hasWaiting = True, m_running = 0,
        m_waiting = [8, 9 :: nat], m_workers = [Idle]\<rparr>" "[]" 1
        "[Release 0, Finish 0 Returns, EnqueueIl [8, 9], Commit, Accept, Poll, Poll, Poll,
          Enqueue 7]" WhileActive] t n j l
  have "wait [(clear \<lparr>m_active = True, m_hasWaiting = True, m_running = 0,
        m_waiting = [8, 9 :: nat], m_workers = [Idle]\<rparr>,
      clear \<lparr>m_active = True, m_hasWaiting = True, m_running = 0,
        m_waiting = [8, 9 :: nat], m_workers = [Idle]\<rparr>)]
    = Some (clear \<lparr>m_active = True, m_hasWaiting = True, m_running = 0,
        m_waiting = [8, 9 :: nat], m_workers = [Idle]\<rparr>,
      clear \<lparr>m_active = True, m_hasWaiting = True, m_running = 0,
        m_waiting = [8, 9 :: nat], m_workers = [Idle]\<rparr>)"
    by blast
  then show ?thesis using t j by (simp add: c running_def)
qed

text \<open>
  Claim C9 as stated (with no task in flight, a \<open>wait()\<close> that follows \<open>clear()\<close>
  returns) fails once a task has thrown: its executor never decrements the counter, so
  with the only worker idle again and nothing in flight the counter is still 1, and
  after \<open>clear()\<close> every evaluation of the loop condition sends \<open>wait()\<close> back to
  waiting.
\<close>

theorem wait_blocked_after_throw:
  "reachable 1
     (\<lparr>m_active = True, m_hasWaiting = True, m_running = 1, m_waiting = [8, 9 :: nat],
       m_workers = [Idle]\<rparr>, WhileActive)
   \<and> lock_free WhileActive
   \<and> jobs (m_workers \<lparr>m_active = True, m_hasWaiting = True, m_running = 1,
        m_waiting = [8, 9 :: nat], m_workers = [Idle]\<rparr>) = []
   \<and> clear \<lparr>m_active = True, m_hasWaiting = True, m_running = 1,
        m_waiting = [8, 9 :: nat], m_workers = [Idle]\<rparr>
      = \<lparr>m_active = True, m_hasWaiting = False, m_running = 1, m_waiting = [],
        m_workers = [Idle]\<rparr>
   \<and> wait [(\<lparr>m_active = True, m_hasWaiting = False, m_running = 1, m_waiting = [] :: nat list,
              m_workers = [Idle]\<rparr>,
            \<lparr>m_active = True, m_hasWaiting = False, m_running = 1, m_waiting = [],
              m_workers = [Idle]\<rparr>),
           (\<lparr>m_active = True, m_hasWaiting = False, m_running = 1, m_waiting = [],
              m_workers = [Idle]\<rparr>,
            \<lparr>m_active = True, m_hasWaiting = False, m_running = 1, m_waiting = [],
              m_workers = [Idle]\<rparr>)]
      = None"
  using trace_reachable [OF trace_idle [of Throws]]
  by (simp add: clear_def empty_def running_def)

end
